theory Spec2Isabelle
  imports Main "HOL-Library.AList"
begin

section \<open>Data model: pods, watch events, reports\<close>

text \<open>
  The Kubernetes types the two reconcilers read. A pod carries its UID, its name and
  namespace, its phase and the names of its init containers and containers; the code
  reads nothing else of it. A watch event carries its type and its object, which is a
  pod or something else (the type assertion \<^verbatim>\<open>event.Object.(*v1.Pod)\<close> fails on it).
\<close>

type_synonym uid = string

datatype pod_phase = PodPending | PodRunning | PodSucceeded | PodFailed | PodUnknown

datatype event_type = Added | Modified | Deleted | Bookmark | Error

record pod =
  pod_UID :: uid
  pod_Name :: string
  pod_Namespace :: string
  pod_Phase :: pod_phase
  pod_InitContainers :: "string list"
  pod_Containers :: "string list"

datatype watch_object = PodObject pod | OtherObject

record watch_event =
  ev_Type :: event_type
  ev_Object :: watch_object

text \<open>
  What a task prints. \<open>Info\<close>, \<open>Warn\<close> and \<open>Err\<close> keep the format string and its
  arguments apart (\<^verbatim>\<open>fmt.Sprintf\<close> itself is not modelled, nor are the colours:
  \<open>F\<close> is a nested \<^verbatim>\<open>Sprintf\<close>, \<open>S\<close> a string and \<open>N\<close> a number);
  \<open>Std\<close> is a line on the standard output.
\<close>

datatype arg = S string | N nat | F string "arg list"

datatype report =
  Info string "arg list"
| Warn string "arg list"
| Err string "arg list"
| Std string

section \<open>The log session: \<open>Logger.outputLog\<close>\<close>

text \<open>
  The fields of \<open>Logger\<close> that the modelled code reads. A regular expression is its
  \<open>MatchString\<close> predicate, \<open>None\<close> being the nil pointer. A colour is a value of
  the type \<open>'c\<close>, which includes the nil colour.
\<close>

record 'c Logger =
  containerRegexp :: "(string \<Rightarrow> bool) option"
  logRegexp :: "(string \<Rightarrow> bool) option"
  colorFilter :: 'c
  jsonColorKeys :: "string list"
  rawOutput :: bool
  dryRun :: bool
  invertRegexp :: bool

text \<open>
  The helpers of package \<open>log\<close> that \<open>outputLog\<close> calls and whose bodies are not
  part of the sources at hand: they are parameters of the model.
\<close>

record 'c log_helpers =
  ColorOfJSON :: "string \<Rightarrow> string list \<Rightarrow> 'c"
  colorIsGreater :: "'c \<Rightarrow> 'c \<Rightarrow> bool"
  Format :: "string \<Rightarrow> 'c \<Rightarrow> string"
  FormatGrep :: "string \<Rightarrow> (string \<Rightarrow> bool) \<Rightarrow> 'c \<Rightarrow> string"

text \<open>
  The body of \<^verbatim>\<open>for streamScanner.Scan()\<close>, on the lines the scanner yields, in order.
  Each \<^verbatim>\<open>continue\<close> is a recursive call that emits nothing.
\<close>

fun scan_lines :: "'c log_helpers \<Rightarrow> 'c Logger \<Rightarrow> string list \<Rightarrow> report list" where
  "scan_lines h l [] = []"
| "scan_lines h l (text # rest) =
     (let colorOutputter = ColorOfJSON h text (jsonColorKeys l) in
      if colorIsGreater h colorOutputter (colorFilter l) then scan_lines h l rest
      else
        (case logRegexp l of
           None \<Rightarrow> Std (Format h text colorOutputter) # scan_lines h l rest
         | Some re \<Rightarrow>
             (let match = re text in
              if (match \<and> invertRegexp l) \<or> (\<not> invertRegexp l \<and> \<not> match)
              then scan_lines h l rest
              else Std (FormatGrep h text re colorOutputter) # scan_lines h l rest)))"

definition outputLog :: "'c log_helpers \<Rightarrow> 'c Logger \<Rightarrow> string list \<Rightarrow> report list" where
  "outputLog h l lines =
     (if \<not> rawOutput l
      then [Info ''Log...'' []] @ scan_lines h l lines @ [Info ''Log ended.'' []]
      else scan_lines h l lines)"

section \<open>Tasks: the bodies handed to \<open>concurrent.Simple.Go\<close>\<close>

text \<open>
  A task body is the list of its effects on what it shares with the other tasks, in
  program order, with the deferred calls written where they run. What the cluster and
  the network answer is an argument of the body. \<open>sink\<close> tells who prints a report:
  the cluster client itself (\<^verbatim>\<open>kube.Err\<close>, \<^verbatim>\<open>kube.Warn\<close>) or the outputter made by
  \<^verbatim>\<open>kube.Child(rawOutput, prefix)\<close>.
\<close>

datatype sink = Kube | Child bool arg

datatype effect =
  MapStore uid
| MapDelete uid
| CancelOwn
| PoolAdd arg
| PoolRemove arg
| Report sink report
| GetLogs string string string bool
| PortForward string string nat nat

text \<open>
  \<open>MapStore\<close> stores the task's own handle under the UID; \<open>CancelOwn\<close> is the deferred
  \<^verbatim>\<open>streamCancel()\<close>; \<open>GetLogs namespace name container follow\<close> is the request for
  the logs of a container and \<open>PortForward namespace name localPort podPort\<close> the call
  of \<open>listenPortForward\<close>.
\<close>

subsection \<open>Log tasks: \<open>logPod\<close>, \<open>streamPod\<close> and the closure of \<open>handlePod\<close>\<close>

definition logOutputter :: "'c Logger \<Rightarrow> string \<Rightarrow> string \<Rightarrow> sink" where
  "logOutputter l name container = Child (rawOutput l) (F ''[%s/%s]'' [S name, S container])"

definition logPod ::
  "'c log_helpers \<Rightarrow> 'c Logger \<Rightarrow> string \<Rightarrow> string \<Rightarrow> string \<Rightarrow> string + string list \<Rightarrow> effect list"
where
  "logPod h l namespace name container content =
     GetLogs namespace name container False #
     (case content of
        Inl err \<Rightarrow> [Report Kube (Err ''%s'' [S err])]
      | Inr lines \<Rightarrow> map (Report (logOutputter l name container)) (outputLog h l lines))"

definition streamPod ::
  "'c log_helpers \<Rightarrow> 'c Logger \<Rightarrow> string \<Rightarrow> string \<Rightarrow> string \<Rightarrow> string + string list \<Rightarrow>
   string option \<Rightarrow> effect list"
where
  "streamPod h l namespace name container stream closeErr =
     GetLogs namespace name container True #
     (case stream of
        Inl err \<Rightarrow> [Report Kube (Err ''%s'' [S err])]
      | Inr lines \<Rightarrow>
          map (Report (logOutputter l name container)) (outputLog h l lines) @
          (case closeErr of
             Some e \<Rightarrow> [Report Kube (Err ''close stream: %s'' [S e])]
           | None \<Rightarrow> []))"

text \<open>The closure that \<open>handlePod\<close> hands to \<^verbatim>\<open>streaming.Go\<close> for one container.\<close>

definition handlePod_task ::
  "'c log_helpers \<Rightarrow> 'c Logger \<Rightarrow> pod \<Rightarrow> string \<Rightarrow> string + string list \<Rightarrow> string option \<Rightarrow>
   effect list"
where
  "handlePod_task h l pod container logs closeErr =
     (if pod_Phase pod \<noteq> PodRunning
      then logPod h l (pod_Namespace pod) (pod_Name pod) container logs
      else MapStore (pod_UID pod) #
           streamPod h l (pod_Namespace pod) (pod_Name pod) container logs closeErr @
           [CancelOwn])"

subsection \<open>Tunnel tasks: the closure of \<open>handleForwardPod\<close>\<close>

definition backend :: "nat \<Rightarrow> arg" where
  "backend port = F ''127.0.0.1:%d'' [N port]"

text \<open>
  The closure of \<open>handleForwardPod\<close> in \<^verbatim>\<open>cmd/port_forward.go\<close>. The three deferred
  calls run in the reverse order of their \<^verbatim>\<open>defer\<close> statements: the removal from the
  pool, the closing warning, the deletion from the map; after a failure of
  \<open>GetFreePort\<close> only the deletion has been deferred. \<open>GetFreePort\<close> is its result:
  an error, or the port of a listener that it opened and closed.
\<close>

definition handleForwardPod_task :: "pod \<Rightarrow> nat \<Rightarrow> string + nat \<Rightarrow> string option \<Rightarrow> effect list" where
  "handleForwardPod_task pod remotePort freePort listen =
     (case freePort of
        Inl err \<Rightarrow> [Report Kube (Err ''get free port: %s'' [S err])]
      | Inr port \<Rightarrow>
          [Report Kube (Warn ''Forwarding to %s...'' [S (pod_Name pod)]),
           PoolAdd (backend port),
           PortForward (pod_Namespace pod) (pod_Name pod) port remotePort] @
          (case listen of
             Some err \<Rightarrow>
               [Report Kube (Err ''Port-forward for %s failed: %s'' [S (pod_Name pod), S err])]
           | None \<Rightarrow> []) @
          [PoolRemove (backend port),
           Report Kube (Warn ''Forwarding to %s ended.'' [S (pod_Name pod)])]) @
     [MapDelete (pod_UID pod)]"

text \<open>
  The same closure in the other version of the file (the second part of
  \<^verbatim>\<open>unnamed/part_000\<close>): the local port is an argument and there is no pool.
\<close>

definition handleForwardPod_task_part_000 :: "pod \<Rightarrow> nat \<Rightarrow> nat \<Rightarrow> string option \<Rightarrow> effect list" where
  "handleForwardPod_task_part_000 pod localPort remotePort listen =
     [Report Kube
        (Info ''Starting port-forward 127.0.0.1:%d => %s:%d'' [N localPort, S (pod_Name pod), N remotePort]),
      PortForward (pod_Namespace pod) (pod_Name pod) localPort remotePort] @
     (case listen of
        Some err \<Rightarrow>
          [Report Kube (Err ''Port-forward for %s failed: %s'' [S (pod_Name pod), S err])]
      | None \<Rightarrow> []) @
     [Report Kube
        (Warn ''Port-forward 127.0.0.1:%d => %s:%d ended.'' [N localPort, S (pod_Name pod), N remotePort]),
      MapDelete (pod_UID pod)]"

section \<open>The shared state of a reconciler\<close>

text \<open>
  What the cluster and the network answer: the result of \<open>WatchPods\<close> (an error, or the
  events its channel delivers before it is closed), and, for the task of each index,
  the answer to its log request, the error of closing its stream, the result of
  \<open>GetFreePort\<close> and the result of \<open>listenPortForward\<close>.
\<close>

record world =
  WatchPods :: "string + watch_event list"
  GetLogsResult :: "nat \<Rightarrow> string + string list"
  CloseResult :: "nat \<Rightarrow> string option"
  GetFreePort :: "nat \<Rightarrow> string + nat"
  listenPortForward :: "nat \<Rightarrow> string option"
  remotePort :: nat

text \<open>
  The consumer is the goroutine that runs the \<^verbatim>\<open>for event := range\<close> loop: it is in the
  loop, or blocked in \<^verbatim>\<open>Wait()\<close>, or it has returned (with an error or nil), or the
  process has panicked.
\<close>

datatype consumer = Watching | Waiting | Returned "arg option" | Panicked

record task =
  task_pod :: pod
  task_todo :: "effect list"

text \<open>
  \<open>active\<close> is the \<^verbatim>\<open>sync.Map\<close> (\<open>activeStreams\<close> in \<open>Logger.Log\<close>, \<open>activeForwarding\<close>
  in the port-forward command): its keys are UIDs, its values handles. The handle
  created by the task of index \<open>i\<close> (its cancel function, its stop channel) is \<open>i\<close>.
  \<open>stopped\<close> holds the handles that were cancelled or closed. \<open>tasks\<close> are the
  goroutines started by \<^verbatim>\<open>Go\<close>, each with what it still has to do. \<open>trace\<close> is every
  effect executed so far.
\<close>

record state =
  events :: "watch_event list"
  active :: "(uid \<times> nat) list"
  stopped :: "nat set"
  tasks :: "task list"
  trace :: "effect list"
  consumer :: consumer

definition initial :: "(string \<Rightarrow> arg) \<Rightarrow> world \<Rightarrow> state" where
  "initial wrap w =
     (case WatchPods w of
        Inl err \<Rightarrow>
          \<lparr>events = [], active = [], stopped = {}, tasks = [], trace = [],
           consumer = Returned (Some (wrap err))\<rparr>
      | Inr evs \<Rightarrow>
          \<lparr>events = evs, active = [], stopped = {}, tasks = [], trace = [],
           consumer = Watching\<rparr>)"

definition Go :: "pod \<Rightarrow> effect list \<Rightarrow> state \<Rightarrow> state" where
  "Go pod body s = s\<lparr>tasks := tasks s @ [\<lparr>task_pod = pod, task_todo = body\<rparr>]\<rparr>"

text \<open>
  Modelled from the spec: \<open>Wait\<close> of \<open>concurrent.Simple\<close> (package \<^verbatim>\<open>pkg/concurrent\<close>,
  not among the sources) is the task group's wait for all: it returns once every task
  started with \<open>Go\<close> has returned.
\<close>

definition Wait_returns :: "state \<Rightarrow> bool" where
  "Wait_returns s = list_all (\<lambda>t. task_todo t = []) (tasks s)"

subsection \<open>A step of a task\<close>

definition exec :: "nat \<Rightarrow> effect \<Rightarrow> state \<Rightarrow> state" where
  "exec i eff s =
     (case eff of
        MapStore u \<Rightarrow> s\<lparr>active := AList.update u i (active s)\<rparr>
      | MapDelete u \<Rightarrow> s\<lparr>active := AList.delete u (active s)\<rparr>
      | CancelOwn \<Rightarrow> s\<lparr>stopped := insert i (stopped s)\<rparr>
      | _ \<Rightarrow> s)
     \<lparr>trace := trace s @ [eff]\<rparr>"

definition task_step :: "nat \<Rightarrow> state \<Rightarrow> state option" where
  "task_step i s =
     (if consumer s = Panicked \<or> length (tasks s) \<le> i then None
      else
        (case task_todo (tasks s ! i) of
           [] \<Rightarrow> None
         | eff # rest \<Rightarrow>
             Some (exec i eff (s\<lparr>tasks := (tasks s)[i := (tasks s ! i)\<lparr>task_todo := rest\<rparr>]\<rparr>))))"

section \<open>The log reconciler: \<open>Logger.Log\<close> and \<open>Logger.handlePod\<close>\<close>

definition isContainerSelected :: "'c Logger \<Rightarrow> string \<Rightarrow> bool" where
  "isContainerSelected l container =
     (case containerRegexp l of None \<Rightarrow> True | Some re \<Rightarrow> re container)"

fun handlePod_containers ::
  "'c log_helpers \<Rightarrow> 'c Logger \<Rightarrow> world \<Rightarrow> pod \<Rightarrow> string list \<Rightarrow> state \<Rightarrow> state"
where
  "handlePod_containers h l w pod [] s = s"
| "handlePod_containers h l w pod (container # rest) s =
     (if \<not> isContainerSelected l container then handlePod_containers h l w pod rest s
      else if dryRun l then
        handlePod_containers h l w pod rest
          (s\<lparr>trace := trace s @
             [Report Kube (Info ''%s %s'' [F ''[%s/%s]'' [S (pod_Name pod), S container], S ''Found!''])]\<rparr>)
      else
        handlePod_containers h l w pod rest
          (Go pod
             (handlePod_task h l pod container
                (GetLogsResult w (length (tasks s))) (CloseResult w (length (tasks s))))
             s))"

definition handlePod :: "'c log_helpers \<Rightarrow> 'c Logger \<Rightarrow> world \<Rightarrow> pod \<Rightarrow> state \<Rightarrow> state" where
  "handlePod h l w pod s =
     handlePod_containers h l w pod (pod_InitContainers pod @ pod_Containers pod) s"

text \<open>The body of the loop of \<open>Logger.Log\<close>, for one event.\<close>

definition Log_event :: "'c log_helpers \<Rightarrow> 'c Logger \<Rightarrow> world \<Rightarrow> watch_event \<Rightarrow> state \<Rightarrow> state" where
  "Log_event h l w event s =
     (case ev_Object event of
        OtherObject \<Rightarrow> s
      | PodObject pod \<Rightarrow>
          (let streamCancel = map_of (active s) (pod_UID pod) in
           if ev_Type event = Deleted \<or> ev_Type event = Error \<or>
              pod_Phase pod = PodSucceeded \<or> pod_Phase pod = PodFailed
           then
             (case streamCancel of
                Some c \<Rightarrow>
                  s\<lparr>stopped := insert c (stopped s),
                    active := AList.delete (pod_UID pod) (active s)\<rparr>
              | None \<Rightarrow>
                  if pod_Phase pod = PodSucceeded \<or> pod_Phase pod = PodFailed
                  then handlePod h l w pod s
                  else s)
           else if streamCancel \<noteq> None \<or> pod_Phase pod = PodPending then s
           else handlePod h l w pod s))"

text \<open>
  A step of the consumer of \<open>Logger.Log\<close>: the next event, or, once the channel is
  closed, \<^verbatim>\<open>streaming.Wait()\<close> and \<^verbatim>\<open>return nil\<close>.
\<close>

definition Log_consumer :: "'c log_helpers \<Rightarrow> 'c Logger \<Rightarrow> world \<Rightarrow> state \<Rightarrow> state option" where
  "Log_consumer h l w s =
     (case consumer s of
        Watching \<Rightarrow>
          (case events s of
             event # rest \<Rightarrow> Some (Log_event h l w event (s\<lparr>events := rest\<rparr>))
           | [] \<Rightarrow> Some (s\<lparr>consumer := Waiting\<rparr>))
      | Waiting \<Rightarrow> if Wait_returns s then Some (s\<lparr>consumer := Returned None\<rparr>) else None
      | Returned r \<Rightarrow> None
      | Panicked \<Rightarrow> None)"

definition Log_init :: "world \<Rightarrow> state" where
  "Log_init w = initial (\<lambda>err. F ''watch pods: %w'' [S err]) w"

section \<open>The port-forward reconciler: the closure of \<open>portForwardCmd.RunE\<close>\<close>

text \<open>
  \<^verbatim>\<open>close(c)\<close> of a channel: closing a closed channel panics, and a panic ends the
  process.
\<close>

definition close_chan :: "nat \<Rightarrow> state \<Rightarrow> state" where
  "close_chan c s =
     (if consumer s = Panicked then s
      else if c \<in> stopped s then s\<lparr>consumer := Panicked\<rparr>
      else s\<lparr>stopped := insert c (stopped s)\<rparr>)"

definition handleForwardPod :: "world \<Rightarrow> pod \<Rightarrow> state \<Rightarrow> state" where
  "handleForwardPod w pod s =
     (let stopChan = length (tasks s) in
      Go pod
        (handleForwardPod_task pod (remotePort w) (GetFreePort w stopChan) (listenPortForward w stopChan))
        (s\<lparr>active := AList.update (pod_UID pod) stopChan (active s)\<rparr>))"

definition forward_event :: "world \<Rightarrow> watch_event \<Rightarrow> state \<Rightarrow> state" where
  "forward_event w event s =
     (case ev_Object event of
        OtherObject \<Rightarrow> s
      | PodObject pod \<Rightarrow>
          (let forwardStop = map_of (active s) (pod_UID pod) in
           if ev_Type event = Deleted \<or> pod_Phase pod = PodSucceeded \<or> pod_Phase pod = PodFailed
           then
             (case forwardStop of
                Some c \<Rightarrow> close_chan c s
              | None \<Rightarrow> s)
           else if forwardStop \<noteq> None \<or> pod_Phase pod \<noteq> PodRunning then s
           else handleForwardPod w pod s))"

text \<open>
  \<^verbatim>\<open>activeForwarding.Range\<close> closes the channel of every entry of the map; it is one
  step of the consumer here.
\<close>

definition close_all :: "state \<Rightarrow> state" where
  "close_all s = fold close_chan (map snd (active s)) s"

definition forward_consumer :: "world \<Rightarrow> state \<Rightarrow> state option" where
  "forward_consumer w s =
     (case consumer s of
        Watching \<Rightarrow>
          (case events s of
             event # rest \<Rightarrow> Some (forward_event w event (s\<lparr>events := rest\<rparr>))
           | [] \<Rightarrow>
               (let s' = close_all s in
                Some (if consumer s' = Panicked then s' else s'\<lparr>consumer := Waiting\<rparr>)))
      | Waiting \<Rightarrow> if Wait_returns s then Some (s\<lparr>consumer := Returned None\<rparr>) else None
      | Returned r \<Rightarrow> None
      | Panicked \<Rightarrow> None)"

definition forward_init :: "world \<Rightarrow> state" where
  "forward_init w = initial S w"

section \<open>Interleavings\<close>

text \<open>
  A schedule says, step by step, who runs: the consumer or the task of some index.
  A step that is not enabled (a task that has returned, a consumer blocked in
  \<open>Wait\<close>, anything after a panic) makes the run undefined. A step of a task is one
  effect of its body. A step of the consumer is one turn of its loop: the \<^verbatim>\<open>Load\<close> of
  an event and the \<^verbatim>\<open>Store\<close>, \<^verbatim>\<open>Delete\<close>, \<^verbatim>\<open>close\<close> or cancellation that follows it are not
  interleaved with the tasks. The calls that block (the log stream, the tunnel) may
  return at any step, with what the world answers.
\<close>

datatype choice = Consumer | Task nat

definition Log_step ::
  "'c log_helpers \<Rightarrow> 'c Logger \<Rightarrow> world \<Rightarrow> choice \<Rightarrow> state \<Rightarrow> state option"
where
  "Log_step h l w c s = (case c of Consumer \<Rightarrow> Log_consumer h l w s | Task i \<Rightarrow> task_step i s)"

definition forward_step :: "world \<Rightarrow> choice \<Rightarrow> state \<Rightarrow> state option" where
  "forward_step w c s = (case c of Consumer \<Rightarrow> forward_consumer w s | Task i \<Rightarrow> task_step i s)"

fun run :: "(choice \<Rightarrow> state \<Rightarrow> state option) \<Rightarrow> choice list \<Rightarrow> state \<Rightarrow> state option" where
  "run step [] s = Some s"
| "run step (c # cs) s = (case step c s of None \<Rightarrow> None | Some s' \<Rightarrow> run step cs s')"

definition Log_run ::
  "'c log_helpers \<Rightarrow> 'c Logger \<Rightarrow> world \<Rightarrow> choice list \<Rightarrow> state option"
where
  "Log_run h l w cs = run (Log_step h l w) cs (Log_init w)"

definition forward_run :: "world \<Rightarrow> choice list \<Rightarrow> state option" where
  "forward_run w cs = run (forward_step w) cs (forward_init w)"

section \<open>Notions the properties are stated with\<close>

text \<open>
  A task is live from the moment \<open>Go\<close> starts it until its body has returned.
  \<open>task_uid\<close> is the UID of the pod it was started for.
\<close>

definition task_uid :: "state \<Rightarrow> nat \<Rightarrow> uid" where
  "task_uid s i = pod_UID (task_pod (tasks s ! i))"

definition live :: "state \<Rightarrow> nat \<Rightarrow> bool" where
  "live s i = (i < length (tasks s) \<and> task_todo (tasks s ! i) \<noteq> [])"

fun touches_map :: "effect \<Rightarrow> bool" where
  "touches_map (MapStore u) = True"
| "touches_map (MapDelete u) = True"
| "touches_map e = False"

fun touches_pool :: "effect \<Rightarrow> bool" where
  "touches_pool (PoolAdd b) = True"
| "touches_pool (PoolRemove b) = True"
| "touches_pool e = False"

fun is_request :: "effect \<Rightarrow> bool" where
  "is_request (GetLogs namespace name container follow) = True"
| "is_request (PortForward namespace name localPort podPort) = True"
| "is_request e = False"

text \<open>
  What is left of a tunnel task: nothing, or effects that leave the map alone followed
  by the deletion of the UID.
\<close>

definition deletes_last :: "uid \<Rightarrow> effect list \<Rightarrow> bool" where
  "deletes_last u todo =
     (todo = [] \<or> (last todo = MapDelete u \<and> \<not> list_ex touches_map (butlast todo)))"

text \<open>
  The invariant of the port-forward reconciler: the keys of the map are distinct, every
  task ends with the deletion of its UID, every live task is the value of its UID in
  the map, and every value of the map is a live task of that UID.
\<close>

definition forward_inv :: "state \<Rightarrow> bool" where
  "forward_inv s =
     (distinct (map fst (active s))
      \<and> (\<forall>i<length (tasks s). deletes_last (task_uid s i) (task_todo (tasks s ! i)))
      \<and> (\<forall>i. live s i \<longrightarrow> map_of (active s) (task_uid s i) = Some i)
      \<and> (\<forall>u c. map_of (active s) u = Some c \<longrightarrow> live s c \<and> task_uid s c = u))"

text \<open>
  A one-shot log task: a single request for the logs of the container, without
  \<open>Follow\<close>, and nothing stored in or deleted from the map.
\<close>

definition one_shot :: "pod \<Rightarrow> string \<Rightarrow> task \<Rightarrow> bool" where
  "one_shot pod container t =
     (task_pod t = pod
      \<and> filter is_request (task_todo t) =
          [GetLogs (pod_Namespace pod) (pod_Name pod) container False]
      \<and> \<not> list_ex touches_map (task_todo t))"

definition selected :: "'c Logger \<Rightarrow> pod \<Rightarrow> string list" where
  "selected l pod = filter (isContainerSelected l) (pod_InitContainers pod @ pod_Containers pod)"

text \<open>The tasks that a step from \<open>s\<close> to \<open>s'\<close> has started.\<close>

definition new_tasks :: "state \<Rightarrow> state \<Rightarrow> task list" where
  "new_tasks s s' = drop (length (tasks s)) (tasks s')"



text \<open>What the reconciler returns, by the result of \<open>WatchPods\<close> alone.\<close>

definition watch_result :: "(string \<Rightarrow> arg) \<Rightarrow> world \<Rightarrow> arg option" where
  "watch_result wrap w = (case WatchPods w of Inl err \<Rightarrow> Some (wrap err) | Inr evs \<Rightarrow> None)"

text \<open>
  Once the consumer has returned, every task has returned and the value is the one
  that the result of \<open>WatchPods\<close> fixes; when \<open>WatchPods\<close> fails, the consumer has
  returned from the start.
\<close>

definition returned_inv :: "(string \<Rightarrow> arg) \<Rightarrow> world \<Rightarrow> state \<Rightarrow> bool" where
  "returned_inv wrap w s =
     ((\<forall>r. consumer s = Returned r \<longrightarrow> Wait_returns s \<and> r = watch_result wrap w)
      \<and> (\<forall>err. WatchPods w = Inl err \<longrightarrow> consumer s = Returned (Some (wrap err))))"


section \<open>Example inputs\<close>

definition example_pod :: "pod_phase \<Rightarrow> string list \<Rightarrow> pod" where
  "example_pod ph cs =
     \<lparr>pod_UID = ''u'', pod_Name = ''p'', pod_Namespace = ''ns'', pod_Phase = ph,
      pod_InitContainers = [], pod_Containers = cs\<rparr>"

definition example_event :: "event_type \<Rightarrow> pod_phase \<Rightarrow> string list \<Rightarrow> watch_event" where
  "example_event t ph cs = \<lparr>ev_Type = t, ev_Object = PodObject (example_pod ph cs)\<rparr>"

definition example_world :: "watch_event list \<Rightarrow> world" where
  "example_world evs =
     \<lparr>WatchPods = Inr evs, GetLogsResult = (\<lambda>i. Inr []), CloseResult = (\<lambda>i. None),
      GetFreePort = (\<lambda>i. Inr (4000 + i)), listenPortForward = (\<lambda>i. None), remotePort = 80\<rparr>"

definition example_helpers :: "nat log_helpers" where
  "example_helpers =
     \<lparr>ColorOfJSON = (\<lambda>t keys. length t), colorIsGreater = (\<lambda>c f. f < c),
      Format = (\<lambda>t c. t), FormatGrep = (\<lambda>t re c. t)\<rparr>"

definition example_Logger :: "nat Logger" where
  "example_Logger =
     \<lparr>containerRegexp = None, logRegexp = None, colorFilter = 4,
      jsonColorKeys = [], rawOutput = True, dryRun = False, invertRegexp = False\<rparr>"

section \<open>The pipeline of the log session as the specification words it\<close>

text \<open>
  Classify the line, drop it when the threshold filter says so, then apply the pattern
  filter, then emit. \<open>spec_pattern_emits\<close> is the pattern filter in the words of the
  specification.
\<close>

definition spec_classify :: "'c log_helpers \<Rightarrow> 'c Logger \<Rightarrow> string \<Rightarrow> 'c" where
  "spec_classify h l text = ColorOfJSON h text (jsonColorKeys l)"

definition spec_below_threshold :: "'c log_helpers \<Rightarrow> 'c Logger \<Rightarrow> 'c \<Rightarrow> bool" where
  "spec_below_threshold h l c = colorIsGreater h c (colorFilter l)"

definition spec_pattern_emits :: "(string \<Rightarrow> bool) \<Rightarrow> bool \<Rightarrow> string \<Rightarrow> bool" where
  "spec_pattern_emits re invert text = ((re text \<and> invert = False) \<or> (re text = False \<and> invert))"

definition spec_line :: "'c log_helpers \<Rightarrow> 'c Logger \<Rightarrow> string \<Rightarrow> report option" where
  "spec_line h l text =
     (let c = spec_classify h l text in
      if spec_below_threshold h l c then None
      else
        (case logRegexp l of
           None \<Rightarrow> Some (Std (Format h text c))
         | Some re \<Rightarrow>
             if spec_pattern_emits re (invertRegexp l) text
             then Some (Std (FormatGrep h text re c))
             else None))"

section \<open>Properties of the log session\<close>

lemma scan_lines_step:
  "scan_lines h l (text # rest) =
     (case spec_line h l text of None \<Rightarrow> [] | Some r \<Rightarrow> [r]) @ scan_lines h l rest"
  by (auto simp: spec_line_def spec_classify_def spec_below_threshold_def
      spec_pattern_emits_def Let_def split: option.splits)

text \<open>
  C6. Every line the scanner yields goes through the pipeline of the specification,
  in its order: classification, then the threshold filter, then the pattern filter,
  then emission; the lines that survive are emitted in the order they were read, and
  nothing else reaches the standard output.
\<close>

theorem outputLog_pipeline:
  "scan_lines h l lines = List.map_filter (spec_line h l) lines
   \<and> outputLog h l lines =
       (if rawOutput l then List.map_filter (spec_line h l) lines
        else Info ''Log...'' [] # List.map_filter (spec_line h l) lines @ [Info ''Log ended.'' []])"
proof -
  have loop: "scan_lines h l lines = List.map_filter (spec_line h l) lines"
  proof (induction lines)
    case Nil
    show ?case by simp
  next
    case (Cons t rest)
    show ?case
      unfolding scan_lines_step Cons.IH
      by (simp split: option.splits)
  qed
  show ?thesis
    unfolding outputLog_def loop by simp
qed

theorem outputLog_pipeline_witness:
  "outputLog
     \<lparr>ColorOfJSON = (\<lambda>t keys. length t), colorIsGreater = (\<lambda>c f. f < c),
      Format = (\<lambda>t c. t), FormatGrep = (\<lambda>t re c. t)\<rparr>
     \<lparr>containerRegexp = None, logRegexp = Some (\<lambda>t. t \<noteq> ''ok''), colorFilter = (4::nat),
      jsonColorKeys = [], rawOutput = False, dryRun = False, invertRegexp = False\<rparr>
     [''ok'', ''warn'', ''a long line'']
   = [Info ''Log...'' [], Std ''warn'', Info ''Log ended.'' []]"
proof -
  let ?h = "\<lparr>ColorOfJSON = (\<lambda>t keys. length t), colorIsGreater = (\<lambda>c f. f < c),
      Format = (\<lambda>t c. t), FormatGrep = (\<lambda>(t::string) (re::string \<Rightarrow> bool) c. t)\<rparr>"
  let ?l = "\<lparr>containerRegexp = None, logRegexp = Some (\<lambda>t. t \<noteq> ''ok''), colorFilter = (4::nat),
      jsonColorKeys = [], rawOutput = False, dryRun = False, invertRegexp = False\<rparr>"
  have "outputLog ?h ?l [''ok'', ''warn'', ''a long line''] =
      Info ''Log...'' [] #
      List.map_filter (spec_line ?h ?l) [''ok'', ''warn'', ''a long line''] @ [Info ''Log ended.'' []]"
    using outputLog_pipeline [of ?h ?l "[''ok'', ''warn'', ''a long line'']"] by simp
  also have "List.map_filter (spec_line ?h ?l) [''ok'', ''warn'', ''a long line''] = [Std ''warn'']"
    by (simp add: spec_line_def spec_classify_def spec_below_threshold_def spec_pattern_emits_def)
  finally show ?thesis by simp
qed

section \<open>Evaluating a run on an example\<close>

lemmas model_defs =
  forward_run_def Log_run_def forward_step_def Log_step_def forward_consumer_def
  Log_consumer_def forward_event_def Log_event_def forward_init_def Log_init_def initial_def
  handleForwardPod_def handlePod_def Go_def task_step_def exec_def close_chan_def close_all_def
  handleForwardPod_task_def handlePod_task_def logPod_def streamPod_def outputLog_def
  logOutputter_def isContainerSelected_def Wait_returns_def backend_def
  example_pod_def example_event_def example_world_def example_helpers_def example_Logger_def

section \<open>Invariants of the runs\<close>

lemma run_invariant:
  assumes "P s" and "run step cs s = Some s'"
    and "\<And>c s s'. P s \<Longrightarrow> step c s = Some s' \<Longrightarrow> P s'"
  shows "P s'"
  using assms(1,2)
proof (induction cs arbitrary: s)
  case Nil
  then show ?case by simp
next
  case (Cons c cs)
  from Cons.prems(2) obtain s1 where s1: "step c s = Some s1" and rest: "run step cs s1 = Some s'"
    by (auto split: option.splits)
  from assms(3)[OF Cons.prems(1) s1] rest show ?case by (rule Cons.IH)
qed

subsection \<open>The port-forward reconciler keeps \<open>forward_inv\<close>\<close>

lemma handleForwardPod_task_deletes_last:
  "deletes_last (pod_UID pod) (handleForwardPod_task pod rp fp li)"
  "handleForwardPod_task pod rp fp li \<noteq> []"
  by (auto simp: deletes_last_def handleForwardPod_task_def butlast_append split: sum.splits option.splits)

lemma deletes_last_Cons:
  assumes "deletes_last u (e # rest)"
  shows "deletes_last u rest"
    and "rest \<noteq> [] \<Longrightarrow> \<not> touches_map e"
    and "rest = [] \<Longrightarrow> e = MapDelete u"
  using assms by (auto simp: deletes_last_def split: if_splits)

lemma task_step_facts:
  assumes "task_step i s = Some s'"
  obtains e rest where "i < length (tasks s)" "task_todo (tasks s ! i) = e # rest"
    "tasks s' = (tasks s)[i := (tasks s ! i)\<lparr>task_todo := rest\<rparr>]"
    "active s' = (case e of MapStore u \<Rightarrow> AList.update u i (active s)
                  | MapDelete u \<Rightarrow> AList.delete u (active s) | _ \<Rightarrow> active s)"
    "consumer s' = consumer s" "events s' = events s" "consumer s \<noteq> Panicked"
  using assms
  by (auto simp: task_step_def exec_def split: if_splits list.splits effect.splits)

lemma task_step_forward_inv:
  assumes inv: "forward_inv s" and step: "task_step i s = Some s'"
  shows "forward_inv s'"
proof -
  from step obtain e rest where i: "i < length (tasks s)"
    and todo: "task_todo (tasks s ! i) = e # rest"
    and tasks': "tasks s' = (tasks s)[i := (tasks s ! i)\<lparr>task_todo := rest\<rparr>]"
    and active': "active s' = (case e of MapStore u \<Rightarrow> AList.update u i (active s)
                  | MapDelete u \<Rightarrow> AList.delete u (active s) | _ \<Rightarrow> active s)"
    by (rule task_step_facts)
  have len: "length (tasks s') = length (tasks s)" by (simp add: tasks')
  have uid: "task_uid s' k = task_uid s k" if "k < length (tasks s)" for k
    using that by (cases "k = i") (simp_all add: task_uid_def tasks')
  have todo': "task_todo (tasks s' ! k) = (if k = i then rest else task_todo (tasks s ! k))"
    if "k < length (tasks s)" for k
    using that by (simp add: tasks')
  from inv have dl: "deletes_last (task_uid s i) (e # rest)"
    using i todo by (auto simp: forward_inv_def)
  have live_i: "live s i" using i todo by (simp add: live_def)
  have reg_i: "map_of (active s) (task_uid s i) = Some i"
    using inv live_i by (simp add: forward_inv_def)
  show ?thesis
  proof (cases "rest = []")
    case False
    then have "\<not> touches_map e" using deletes_last_Cons(2)[OF dl] by simp
    then have act: "active s' = active s" by (cases e) (simp_all add: active')
    have live': "live s' k = live s k" for k
    proof (cases "k < length (tasks s)")
      case True
      then show ?thesis using False todo todo'[OF True] by (auto simp: live_def len)
    next
      case False
      then show ?thesis by (simp add: live_def len)
    qed
    show ?thesis
      using inv deletes_last_Cons(1)[OF dl]
      unfolding forward_inv_def act len live'
      by (auto simp: uid todo' live_def)
  next
    case True
    then have e: "e = MapDelete (task_uid s i)" using deletes_last_Cons(3)[OF dl] by simp
    have act: "active s' = AList.delete (task_uid s i) (active s)" by (simp add: active' e)
    have live': "live s' k = (live s k \<and> k \<noteq> i)" for k
    proof (cases "k < length (tasks s)")
      case True
      then show ?thesis using \<open>rest = []\<close> todo todo'[OF True] by (auto simp: live_def len)
    next
      case False
      then show ?thesis by (simp add: live_def len)
    qed
    have other: "task_uid s k \<noteq> task_uid s i" if "live s k" "k \<noteq> i" for k
    proof
      assume "task_uid s k = task_uid s i"
      moreover have "map_of (active s) (task_uid s k) = Some k"
        using inv that(1) by (simp add: forward_inv_def)
      ultimately show False using reg_i that(2) by simp
    qed
    have 1: "distinct (map fst (active s'))"
      using inv by (simp add: act forward_inv_def distinct_delete)
    have 2: "\<forall>k<length (tasks s'). deletes_last (task_uid s' k) (task_todo (tasks s' ! k))"
      using inv True by (auto simp: len uid todo' forward_inv_def deletes_last_def)
    have 3: "\<forall>k. live s' k \<longrightarrow> map_of (active s') (task_uid s' k) = Some k"
    proof (intro allI impI)
      fix k assume "live s' k"
      then have k: "live s k" "k \<noteq> i" by (simp_all add: live')
      then have "k < length (tasks s)" by (simp add: live_def)
      with k other[OF k] inv show "map_of (active s') (task_uid s' k) = Some k"
        by (simp add: act delete_conv' uid forward_inv_def)
    qed
    have 4: "\<forall>u c. map_of (active s') u = Some c \<longrightarrow> live s' c \<and> task_uid s' c = u"
    proof (intro allI impI)
      fix u c assume "map_of (active s') u = Some c"
      then have u: "u \<noteq> task_uid s i" and m: "map_of (active s) u = Some c"
        by (auto simp: act delete_conv' split: if_splits)
      from inv m have c: "live s c" "task_uid s c = u" by (auto simp: forward_inv_def)
      with u have "c \<noteq> i" by auto
      with c have "live s' c" by (simp add: live')
      moreover from c have "task_uid s' c = u" by (simp add: uid live_def)
      ultimately show "live s' c \<and> task_uid s' c = u" ..
    qed
    show ?thesis unfolding forward_inv_def using 1 2 3 4 by blast
  qed
qed

lemma close_chan_frame:
  "active (close_chan c s) = active s" "tasks (close_chan c s) = tasks s"
  "events (close_chan c s) = events s"
  by (simp_all add: close_chan_def)

lemma fold_close_chan_frame:
  "active (fold close_chan cs s) = active s \<and> tasks (fold close_chan cs s) = tasks s
   \<and> events (fold close_chan cs s) = events s"
  by (induction cs arbitrary: s) (simp_all add: close_chan_frame)

lemma forward_inv_frame:
  assumes "forward_inv s" "active s' = active s" "tasks s' = tasks s"
  shows "forward_inv s'"
  using assms by (simp add: forward_inv_def live_def task_uid_def)

lemma handleForwardPod_forward_inv:
  assumes inv: "forward_inv s" and untracked: "map_of (active s) (pod_UID pod) = None"
  shows "forward_inv (handleForwardPod w pod s)"
proof -
  let ?n = "length (tasks s)"
  let ?s' = "handleForwardPod w pod s"
  let ?body = "handleForwardPod_task pod (remotePort w) (GetFreePort w ?n) (listenPortForward w ?n)"
  have tasks': "tasks ?s' = tasks s @ [\<lparr>task_pod = pod, task_todo = ?body\<rparr>]"
    by (simp add: handleForwardPod_def Go_def Let_def)
  have act: "active ?s' = AList.update (pod_UID pod) ?n (active s)"
    by (simp add: handleForwardPod_def Go_def Let_def)
  have len: "length (tasks ?s') = Suc ?n" by (simp add: tasks')
  have uid: "task_uid ?s' k = (if k = ?n then pod_UID pod else task_uid s k)" if "k \<le> ?n" for k
    using that by (auto simp: task_uid_def tasks' nth_append)
  have todo': "task_todo (tasks ?s' ! k) = (if k = ?n then ?body else task_todo (tasks s ! k))"
    if "k \<le> ?n" for k
    using that by (auto simp: tasks' nth_append)
  have live': "live ?s' k = (k = ?n \<or> live s k)" for k
    using handleForwardPod_task_deletes_last(2)[of pod "remotePort w" "GetFreePort w ?n" "listenPortForward w ?n"]
      todo'[of k]
    by (auto simp: live_def len)
  have other: "task_uid s k \<noteq> pod_UID pod" if "live s k" for k
    using inv that untracked by (auto simp: forward_inv_def)
  have 1: "distinct (map fst (active ?s'))"
    using inv by (simp add: act forward_inv_def distinct_update)
  have 2: "\<forall>k<length (tasks ?s'). deletes_last (task_uid ?s' k) (task_todo (tasks ?s' ! k))"
    using inv handleForwardPod_task_deletes_last(1)
    by (auto simp: len uid todo' forward_inv_def less_Suc_eq)
  have 3: "\<forall>k. live ?s' k \<longrightarrow> map_of (active ?s') (task_uid ?s' k) = Some k"
  proof (intro allI impI)
    fix k assume "live ?s' k"
    then have "k = ?n \<or> live s k" by (simp add: live')
    then consider "k = ?n" | "live s k" "k < ?n" by (auto simp: live_def)
    then show "map_of (active ?s') (task_uid ?s' k) = Some k"
    proof cases
      case 1 then show ?thesis by (simp add: act update_conv' uid)
    next
      case 2
      with other[of k] inv show ?thesis
        by (simp add: act update_conv' uid forward_inv_def)
    qed
  qed
  have 4: "\<forall>u c. map_of (active ?s') u = Some c \<longrightarrow> live ?s' c \<and> task_uid ?s' c = u"
  proof (intro allI impI)
    fix u c assume m: "map_of (active ?s') u = Some c"
    show "live ?s' c \<and> task_uid ?s' c = u"
    proof (cases "u = pod_UID pod")
      case True with m show ?thesis by (simp add: act update_conv' live' uid)
    next
      case False
      with m have "map_of (active s) u = Some c" by (simp add: act update_conv')
      with inv have c: "live s c" "task_uid s c = u" by (auto simp: forward_inv_def)
      then have "live ?s' c" by (simp add: live')
      moreover from c have "task_uid ?s' c = u" by (auto simp: uid live_def)
      ultimately show ?thesis ..
    qed
  qed
  show ?thesis unfolding forward_inv_def using 1 2 3 4 by blast
qed

lemma forward_event_forward_inv:
  assumes "forward_inv s"
  shows "forward_inv (forward_event w event s)"
proof (cases "ev_Object event")
  case OtherObject
  with assms show ?thesis by (simp add: forward_event_def)
next
  case (PodObject pod)
  show ?thesis
  proof (cases "map_of (active s) (pod_UID pod)")
    case None
    with assms PodObject show ?thesis
      by (simp add: forward_event_def Let_def handleForwardPod_forward_inv)
  next
    case (Some c)
    have "forward_inv (close_chan c s)"
      by (rule forward_inv_frame[OF assms]) (simp_all add: close_chan_frame)
    with assms PodObject Some show ?thesis
      by (simp add: forward_event_def Let_def)
  qed
qed

lemma forward_consumer_forward_inv:
  assumes "forward_inv s" and "forward_consumer w s = Some s'"
  shows "forward_inv s'"
proof (cases "consumer s")
  case Watching
  show ?thesis
  proof (cases "events s")
    case Nil
    have "active s' = active s \<and> tasks s' = tasks s"
      using assms(2) Watching Nil fold_close_chan_frame[of "map snd (active s)" s]
      by (auto simp: forward_consumer_def close_all_def Let_def split: if_splits)
    then show ?thesis using forward_inv_frame[OF assms(1)] by blast
  next
    case (Cons event rest)
    have "forward_inv (s\<lparr>events := rest\<rparr>)"
      by (rule forward_inv_frame[OF assms(1)]) simp_all
    then have "forward_inv (forward_event w event (s\<lparr>events := rest\<rparr>))"
      by (rule forward_event_forward_inv)
    with assms(2) Watching Cons show ?thesis by (simp add: forward_consumer_def)
  qed
next
  case Waiting
  with assms(2) have "s' = s\<lparr>consumer := Returned None\<rparr>"
    by (simp add: forward_consumer_def split: if_splits)
  then show ?thesis using forward_inv_frame[OF assms(1), of s'] by simp
next
  case (Returned r)
  with assms(2) show ?thesis by (simp add: forward_consumer_def)
next
  case Panicked
  with assms(2) show ?thesis by (simp add: forward_consumer_def)
qed

lemma forward_init_forward_inv: "forward_inv (forward_init w)"
  by (simp add: forward_inv_def forward_init_def initial_def live_def split: sum.splits)

lemma forward_step_forward_inv:
  assumes "forward_inv s" and "forward_step w c s = Some s'"
  shows "forward_inv s'"
  using assms
  by (cases c) (auto simp: forward_step_def intro: forward_consumer_forward_inv task_step_forward_inv)

lemma forward_run_forward_inv:
  assumes "forward_run w cs = Some s"
  shows "forward_inv s"
  using forward_init_forward_inv assms[unfolded forward_run_def] forward_step_forward_inv
  by (rule run_invariant)

subsection \<open>What \<open>handlePod\<close> leaves alone\<close>

lemma handlePod_containers_frame:
  "active (handlePod_containers h l w pod cs s) = active s
   \<and> stopped (handlePod_containers h l w pod cs s) = stopped s
   \<and> events (handlePod_containers h l w pod cs s) = events s
   \<and> consumer (handlePod_containers h l w pod cs s) = consumer s"
  by (induction cs arbitrary: s) (simp_all add: Go_def)

section \<open>Single ownership\<close>

text \<open>
  C1 is what the log reconciler should do and does not. The consumer looks the UID up
  in the map, but it is the task that stores the handle, after \<open>Go\<close> has started it:
  a second event for the same running pod that the consumer handles before that store
  finds the UID untracked and starts a second task for the same UID and the same
  container. Here the pod \<open>p\<close> has the one container \<open>a\<close>; after \<open>Added\<close> and
  \<open>Modified\<close> both tasks follow the logs of \<open>a\<close>, the handle of the first is
  overwritten by the second, and the \<open>Deleted\<close> event cancels the second only.
\<close>

theorem log_duplicate_session_race:
  "Log_run example_helpers example_Logger
      ((example_world [example_event Added PodRunning [''a''], example_event Modified PodRunning [''a''],
          example_event Deleted PodRunning [''a'']])
         \<lparr>GetLogsResult := (\<lambda>i. Inr [''line''])\<rparr>)
      [Consumer, Consumer, Task 0, Task 1, Task 0, Task 1]
     = Some \<lparr>events = [example_event Deleted PodRunning [''a'']], active = [(''u'', 1)], stopped = {},
         tasks = [\<lparr>task_pod = example_pod PodRunning [''a''],
                   task_todo = [Report (Child True (F ''[%s/%s]'' [S ''p'', S ''a''])) (Std ''line''), CancelOwn]\<rparr>,
                  \<lparr>task_pod = example_pod PodRunning [''a''],
                   task_todo = [Report (Child True (F ''[%s/%s]'' [S ''p'', S ''a''])) (Std ''line''), CancelOwn]\<rparr>],
         trace = [MapStore ''u'', MapStore ''u'', GetLogs ''ns'' ''p'' ''a'' True, GetLogs ''ns'' ''p'' ''a'' True],
         consumer = Watching\<rparr>
   \<and> live (the (Log_run example_helpers example_Logger
        ((example_world [example_event Added PodRunning [''a''], example_event Modified PodRunning [''a''],
            example_event Deleted PodRunning [''a'']])
           \<lparr>GetLogsResult := (\<lambda>i. Inr [''line''])\<rparr>)
        [Consumer, Consumer, Task 0, Task 1, Task 0, Task 1])) 0
   \<and> live (the (Log_run example_helpers example_Logger
        ((example_world [example_event Added PodRunning [''a''], example_event Modified PodRunning [''a''],
            example_event Deleted PodRunning [''a'']])
           \<lparr>GetLogsResult := (\<lambda>i. Inr [''line''])\<rparr>)
        [Consumer, Consumer, Task 0, Task 1, Task 0, Task 1])) 1
   \<and> stopped (the (Log_run example_helpers example_Logger
        ((example_world [example_event Added PodRunning [''a''], example_event Modified PodRunning [''a''],
            example_event Deleted PodRunning [''a'']])
           \<lparr>GetLogsResult := (\<lambda>i. Inr [''line''])\<rparr>)
        [Consumer, Consumer, Task 0, Task 1, Task 0, Task 1, Consumer])) = {1}
   \<and> active (the (Log_run example_helpers example_Logger
        ((example_world [example_event Added PodRunning [''a''], example_event Modified PodRunning [''a''],
            example_event Deleted PodRunning [''a'']])
           \<lparr>GetLogsResult := (\<lambda>i. Inr [''line''])\<rparr>)
        [Consumer, Consumer, Task 0, Task 1, Task 0, Task 1, Consumer])) = []
   \<and> live (the (Log_run example_helpers example_Logger
        ((example_world [example_event Added PodRunning [''a''], example_event Modified PodRunning [''a''],
            example_event Deleted PodRunning [''a'']])
           \<lparr>GetLogsResult := (\<lambda>i. Inr [''line''])\<rparr>)
        [Consumer, Consumer, Task 0, Task 1, Task 0, Task 1, Consumer])) 0"
  by (simp add: model_defs live_def)

text \<open>
  The port-forward reconciler stores the stop channel before it starts the task, and
  there single ownership holds: in every state that it reaches, under every schedule,
  the map holds at most one handle per UID, no two live tasks have the same UID, every
  live task is the handle registered for its UID, and every registered handle is a
  live task of that UID.
\<close>

lemma forward_single_ownership:
  assumes "forward_run w cs = Some s"
  shows "distinct (map fst (active s))
      \<and> (\<forall>i j. live s i \<and> live s j \<and> task_uid s i = task_uid s j \<longrightarrow> i = j)
      \<and> (\<forall>i. live s i \<longrightarrow> map_of (active s) (task_uid s i) = Some i)
      \<and> (\<forall>u c. map_of (active s) u = Some c \<longrightarrow> live s c \<and> task_uid s c = u)"
proof (intro conjI)
  from assms have inv: "forward_inv s" by (rule forward_run_forward_inv)
  then show "distinct (map fst (active s))"
    and "\<forall>i. live s i \<longrightarrow> map_of (active s) (task_uid s i) = Some i"
    and "\<forall>u c. map_of (active s) u = Some c \<longrightarrow> live s c \<and> task_uid s c = u"
    by (simp_all add: forward_inv_def)
  show "\<forall>i j. live s i \<and> live s j \<and> task_uid s i = task_uid s j \<longrightarrow> i = j"
  proof (intro allI impI)
    fix i j assume ij: "live s i \<and> live s j \<and> task_uid s i = task_uid s j"
    from inv have reg: "map_of (active s) (task_uid s k) = Some k" if "live s k" for k
      using that by (simp add: forward_inv_def)
    from ij have li: "live s i" and lj: "live s j" and eq: "task_uid s i = task_uid s j"
      by blast+
    have "Some i = map_of (active s) (task_uid s i)" using reg[OF li] ..
    also have "\<dots> = map_of (active s) (task_uid s j)" unfolding eq ..
    also have "\<dots> = Some j" by (rule reg[OF lj])
    finally show "i = j" by simp
  qed
qed

section \<open>Events for tracked pods\<close>

text \<open>
  C4, as stated, fails on the port-forward reconciler: after \<open>Added\<close> (running) and then
  \<open>Deleted\<close> for the same pod, the stop channel is closed and the UID is still in the
  map.
\<close>

theorem forward_deleted_still_tracked_counterexample:
  "forward_run
      (example_world [example_event Added PodRunning [''a''], example_event Deleted PodRunning [''a'']])
      [Consumer, Consumer] \<noteq> None
   \<and> map_of (active (the (forward_run
        (example_world [example_event Added PodRunning [''a''], example_event Deleted PodRunning [''a'']])
        [Consumer, Consumer]))) ''u'' = Some 0
   \<and> stopped (the (forward_run
        (example_world [example_event Added PodRunning [''a''], example_event Deleted PodRunning [''a'']])
        [Consumer, Consumer])) = {0}
   \<and> events (the (forward_run
        (example_world [example_event Added PodRunning [''a''], example_event Deleted PodRunning [''a'']])
        [Consumer, Consumer])) = []"
  by (simp add: model_defs)

text \<open>
  C4, amended. In the log reconciler a \<open>Deleted\<close> or \<open>Error\<close> event for a tracked pod
  cancels the registered handle and deletes the entry, so that the UID is untracked
  right after the event. In the port-forward reconciler a \<open>Deleted\<close> event for a
  tracked pod whose stop channel is open closes the channel and leaves the entry in
  the map; in every reachable state the entry of a UID belongs to a live task whose
  last effect is the deletion of that UID.
\<close>

theorem deleted_event_for_tracked_pod:
  "(ev_Object event = PodObject pod \<and> (ev_Type event = Deleted \<or> ev_Type event = Error)
      \<and> map_of (active s) (pod_UID pod) = Some c \<longrightarrow>
      Log_event h l w event s =
        s\<lparr>stopped := insert c (stopped s), active := AList.delete (pod_UID pod) (active s)\<rparr>
      \<and> map_of (active (Log_event h l w event s)) (pod_UID pod) = None
      \<and> c \<in> stopped (Log_event h l w event s))
   \<and> (ev_Object event = PodObject pod \<and> ev_Type event = Deleted
      \<and> map_of (active s) (pod_UID pod) = Some c \<and> consumer s \<noteq> Panicked \<and> c \<notin> stopped s \<longrightarrow>
      forward_event w event s = s\<lparr>stopped := insert c (stopped s)\<rparr>)
   \<and> (forward_run w cs = Some s' \<and> map_of (active s') u = Some c' \<longrightarrow>
      live s' c' \<and> last (task_todo (tasks s' ! c')) = MapDelete u)"
proof (intro conjI impI)
  assume a: "ev_Object event = PodObject pod \<and> (ev_Type event = Deleted \<or> ev_Type event = Error)
      \<and> map_of (active s) (pod_UID pod) = Some c"
  then show eq: "Log_event h l w event s =
        s\<lparr>stopped := insert c (stopped s), active := AList.delete (pod_UID pod) (active s)\<rparr>"
    by (auto simp: Log_event_def Let_def)
  show "map_of (active (Log_event h l w event s)) (pod_UID pod) = None"
    unfolding eq by (simp add: delete_conv')
  show "c \<in> stopped (Log_event h l w event s)"
    unfolding eq by simp
next
  assume "ev_Object event = PodObject pod \<and> ev_Type event = Deleted
      \<and> map_of (active s) (pod_UID pod) = Some c \<and> consumer s \<noteq> Panicked \<and> c \<notin> stopped s"
  then show "forward_event w event s = s\<lparr>stopped := insert c (stopped s)\<rparr>"
    by (simp add: forward_event_def Let_def close_chan_def)
next
  assume a: "forward_run w cs = Some s' \<and> map_of (active s') u = Some c'"
  then have inv: "forward_inv s'" using forward_run_forward_inv by blast
  with a have l: "live s' c'" and u: "task_uid s' c' = u" by (auto simp: forward_inv_def)
  from l inv have "deletes_last (task_uid s' c') (task_todo (tasks s' ! c'))"
    by (simp add: forward_inv_def live_def)
  with l u show "last (task_todo (tasks s' ! c')) = MapDelete u"
    by (auto simp: deletes_last_def live_def)
  from l show "live s' c'" .
qed

theorem deleted_event_for_tracked_pod_witness:
  "map_of (active (Log_event example_helpers example_Logger (example_world [example_event Added PodRunning [''a'']])
       (example_event Deleted PodRunning [''a''])
       (the (Log_run example_helpers example_Logger
          (example_world [example_event Added PodRunning [''a'']]) [Consumer, Task 0])))) ''u'' = None
   \<and> 0 \<in> stopped (Log_event example_helpers example_Logger (example_world [example_event Added PodRunning [''a'']])
       (example_event Deleted PodRunning [''a''])
       (the (Log_run example_helpers example_Logger
          (example_world [example_event Added PodRunning [''a'']]) [Consumer, Task 0])))
   \<and> stopped (forward_event (example_world [example_event Added PodRunning [''a'']]) (example_event Deleted PodRunning [''a''])
       (the (forward_run (example_world [example_event Added PodRunning [''a'']]) [Consumer]))) = {0}
   \<and> live (the (forward_run (example_world [example_event Added PodRunning [''a'']]) [Consumer])) 0
   \<and> last (task_todo (tasks (the (forward_run (example_world [example_event Added PodRunning [''a'']])
        [Consumer])) ! 0)) = MapDelete ''u''"
proof -
  let ?ev = "example_event Deleted PodRunning [''a'']"
  let ?sl = "the (Log_run example_helpers example_Logger
          (example_world [example_event Added PodRunning [''a'']]) [Consumer, Task 0])"
  let ?sf = "the (forward_run (example_world [example_event Added PodRunning [''a'']]) [Consumer])"
  have ev: "ev_Object ?ev = PodObject (example_pod PodRunning [''a''])" "ev_Type ?ev = Deleted"
    by (simp_all add: example_event_def)
  have uid: "pod_UID (example_pod PodRunning [''a'']) = ''u''" by (simp add: example_pod_def)
  have tl: "map_of (active ?sl) ''u'' = Some 0" by (simp add: model_defs)
  have tf: "map_of (active ?sf) ''u'' = Some 0" "consumer ?sf \<noteq> Panicked" "0 \<notin> stopped ?sf"
    "stopped ?sf = {}"
    by (simp_all add: model_defs)
  have run: "forward_run (example_world [example_event Added PodRunning [''a'']]) [Consumer] = Some ?sf"
    by (simp add: model_defs)
  note inst = deleted_event_for_tracked_pod[where event = ?ev and pod = "example_pod PodRunning [''a'']"
      and c = 0 and h = example_helpers and l = example_Logger and w = "example_world [example_event Added PodRunning [''a'']]"
      and cs = "[Consumer]" and s' = ?sf and u = "''u''" and c' = 0, unfolded uid]
  from inst[where s = ?sl] ev tl
  have 1: "map_of (active (Log_event example_helpers example_Logger (example_world [example_event Added PodRunning [''a'']]) ?ev ?sl)) ''u'' = None"
    and 2: "0 \<in> stopped (Log_event example_helpers example_Logger (example_world [example_event Added PodRunning [''a'']]) ?ev ?sl)"
    by blast+
  from inst[where s = ?sf] ev tf(1,2,3)
  have "forward_event (example_world [example_event Added PodRunning [''a'']]) ?ev ?sf = ?sf\<lparr>stopped := insert 0 (stopped ?sf)\<rparr>"
    by blast
  then have 3: "stopped (forward_event (example_world [example_event Added PodRunning [''a'']]) ?ev ?sf) = {0}"
    by (simp add: tf(4))
  from inst[where s = ?sf] run tf(1)
  have 4: "live ?sf 0 \<and> last (task_todo (tasks ?sf ! 0)) = MapDelete ''u''"
    by blast
  from 1 2 3 4 show ?thesis by blast
qed

section \<open>Cleanup of a tunnel session\<close>

text \<open>
  C8. Whatever \<open>GetFreePort\<close> and \<open>listenPortForward\<close> answer, the body of a tunnel task
  touches the map exactly once, in its last effect, which deletes the UID of its pod;
  it touches the pool either not at all (no port) or by adding its backend and later
  removing the same backend, before the deletion. The version without a pool ends with
  the deletion too. In every reachable state a task that has returned is no value of
  the map.
\<close>

theorem tunnel_session_cleanup:
  "last (handleForwardPod_task pod rp fp li) = MapDelete (pod_UID pod)
   \<and> filter touches_map (handleForwardPod_task pod rp fp li) = [MapDelete (pod_UID pod)]
   \<and> filter touches_pool (handleForwardPod_task pod rp fp li) =
       (case fp of Inl err \<Rightarrow> [] | Inr port \<Rightarrow> [PoolAdd (backend port), PoolRemove (backend port)])
   \<and> last (handleForwardPod_task_part_000 pod lp rp li) = MapDelete (pod_UID pod)
   \<and> filter touches_map (handleForwardPod_task_part_000 pod lp rp li) = [MapDelete (pod_UID pod)]
   \<and> filter touches_pool (handleForwardPod_task_part_000 pod lp rp li) = []
   \<and> (forward_run w cs = Some s \<longrightarrow>
        (\<forall>i<length (tasks s). task_todo (tasks s ! i) = [] \<longrightarrow> (\<forall>u. map_of (active s) u \<noteq> Some i)))"
proof (intro conjI impI)
  show "last (handleForwardPod_task pod rp fp li) = MapDelete (pod_UID pod)"
    by (simp add: handleForwardPod_task_def)
  show "filter touches_map (handleForwardPod_task pod rp fp li) = [MapDelete (pod_UID pod)]"
    by (simp add: handleForwardPod_task_def split: sum.splits option.splits)
  show "filter touches_pool (handleForwardPod_task pod rp fp li) =
       (case fp of Inl err \<Rightarrow> [] | Inr port \<Rightarrow> [PoolAdd (backend port), PoolRemove (backend port)])"
    by (simp add: handleForwardPod_task_def split: sum.splits option.splits)
  show "last (handleForwardPod_task_part_000 pod lp rp li) = MapDelete (pod_UID pod)"
    by (simp add: handleForwardPod_task_part_000_def)
  show "filter touches_map (handleForwardPod_task_part_000 pod lp rp li) = [MapDelete (pod_UID pod)]"
    by (simp add: handleForwardPod_task_part_000_def split: option.splits)
  show "filter touches_pool (handleForwardPod_task_part_000 pod lp rp li) = []"
    by (simp add: handleForwardPod_task_part_000_def split: option.splits)
next
  assume "forward_run w cs = Some s"
  then have inv: "forward_inv s" by (rule forward_run_forward_inv)
  show "\<forall>i<length (tasks s). task_todo (tasks s ! i) = [] \<longrightarrow> (\<forall>u. map_of (active s) u \<noteq> Some i)"
  proof (intro allI impI notI)
    fix i u assume "i < length (tasks s)" "task_todo (tasks s ! i) = []" "map_of (active s) u = Some i"
    with inv show False by (auto simp: forward_inv_def live_def)
  qed
qed

theorem tunnel_session_cleanup_witness:
  "filter touches_pool (handleForwardPod_task (example_pod PodRunning [''a'']) 80 (Inl ''no port'') None) = []
   \<and> filter touches_pool (handleForwardPod_task (example_pod PodRunning [''a'']) 80 (Inr 4000) (Some ''lost'')) =
       [PoolAdd (F ''127.0.0.1:%d'' [N 4000]), PoolRemove (F ''127.0.0.1:%d'' [N 4000])]
   \<and> last (handleForwardPod_task (example_pod PodRunning [''a'']) 80 (Inr 4000) (Some ''lost'')) = MapDelete ''u''
   \<and> map_of (active (the (forward_run (example_world [example_event Added PodRunning [''a'']])
        [Consumer, Task 0, Task 0, Task 0, Task 0, Task 0, Task 0]))) ''u'' \<noteq> Some 0"
proof -
  let ?w = "example_world [example_event Added PodRunning [''a'']]"
  let ?cs = "[Consumer, Task 0, Task 0, Task 0, Task 0, Task 0, Task 0]"
  let ?s = "the (forward_run ?w ?cs)"
  have run: "forward_run ?w ?cs = Some ?s" by (simp add: model_defs)
  have fin: "0 < length (tasks ?s)" "task_todo (tasks ?s ! 0) = []" by (simp_all add: model_defs)
  from tunnel_session_cleanup[of "example_pod PodRunning [''a'']" 80 "Inl ''no port''" None 0 ?w ?cs ?s]
  have 1: "filter touches_pool (handleForwardPod_task (example_pod PodRunning [''a'']) 80 (Inl ''no port'') None) = []"
    by simp
  from tunnel_session_cleanup[of "example_pod PodRunning [''a'']" 80 "Inr 4000" "Some ''lost''" 0 ?w ?cs ?s]
  have 2: "filter touches_pool (handleForwardPod_task (example_pod PodRunning [''a'']) 80 (Inr 4000) (Some ''lost'')) =
       [PoolAdd (F ''127.0.0.1:%d'' [N 4000]), PoolRemove (F ''127.0.0.1:%d'' [N 4000])]"
    and 3: "last (handleForwardPod_task (example_pod PodRunning [''a'']) 80 (Inr 4000) (Some ''lost'')) = MapDelete ''u''"
    by (simp_all add: backend_def example_pod_def)
  from tunnel_session_cleanup[of "example_pod PodRunning [''a'']" 80 "Inr 4000" "Some ''lost''" 0 ?w ?cs ?s] run fin
  have 4: "map_of (active ?s) ''u'' \<noteq> Some 0" by blast
  from 1 2 3 4 show ?thesis by blast
qed

section \<open>Closing a closed channel\<close>

text \<open>
  C9 is what the code should do and does not. The port-forward reconciler closes the
  stop channel that it finds in the map and leaves the entry there until the task
  deletes it; a second terminal or \<open>Deleted\<close> event for the same UID that arrives before
  that, or the end of the stream, closes the same channel again, which panics. Here the
  pod runs, then fails, then is deleted, and no step of the task comes in between; in
  the second run the pod runs, is deleted, and the stream ends.
\<close>

theorem forward_double_close_panics:
  "forward_run
      (example_world [example_event Added PodRunning [''a''], example_event Modified PodFailed [''a''],
         example_event Deleted PodFailed [''a'']])
      [Consumer, Consumer, Consumer] \<noteq> None
   \<and> consumer (the (forward_run
        (example_world [example_event Added PodRunning [''a''], example_event Modified PodFailed [''a''],
           example_event Deleted PodFailed [''a'']])
        [Consumer, Consumer])) = Watching
   \<and> consumer (the (forward_run
        (example_world [example_event Added PodRunning [''a''], example_event Modified PodFailed [''a''],
           example_event Deleted PodFailed [''a'']])
        [Consumer, Consumer, Consumer])) = Panicked
   \<and> consumer (the (forward_run
        (example_world [example_event Added PodRunning [''a''], example_event Deleted PodRunning [''a'']])
        [Consumer, Consumer, Consumer])) = Panicked"
  by (simp add: model_defs)

section \<open>Events that carry no pod\<close>

text \<open>
  C10. An event whose object is not a pod changes nothing in either reconciler: the
  map, the handles, the tasks and the trace are the same, and the consumer goes on with
  the next event.
\<close>

theorem non_pod_event_skipped:
  "Log_event h l w \<lparr>ev_Type = t, ev_Object = OtherObject\<rparr> s = s
   \<and> forward_event w \<lparr>ev_Type = t, ev_Object = OtherObject\<rparr> s = s
   \<and> Log_consumer h l w (s\<lparr>events := \<lparr>ev_Type = t, ev_Object = OtherObject\<rparr> # rest, consumer := Watching\<rparr>)
       = Some (s\<lparr>events := rest, consumer := Watching\<rparr>)
   \<and> forward_consumer w (s\<lparr>events := \<lparr>ev_Type = t, ev_Object = OtherObject\<rparr> # rest, consumer := Watching\<rparr>)
       = Some (s\<lparr>events := rest, consumer := Watching\<rparr>)"
  by (simp add: Log_event_def forward_event_def Log_consumer_def forward_consumer_def)

theorem non_pod_event_skipped_witness:
  "forward_consumer (example_world [])
      ((the (forward_run (example_world [example_event Added PodRunning [''a'']]) [Consumer]))
         \<lparr>events := [\<lparr>ev_Type = Error, ev_Object = OtherObject\<rparr>, example_event Deleted PodRunning [''a'']],
          consumer := Watching\<rparr>)
   = Some ((the (forward_run (example_world [example_event Added PodRunning [''a'']]) [Consumer]))
         \<lparr>events := [example_event Deleted PodRunning [''a'']], consumer := Watching\<rparr>)
   \<and> Log_event example_helpers example_Logger (example_world []) \<lparr>ev_Type = Error, ev_Object = OtherObject\<rparr>
        (the (Log_run example_helpers example_Logger (example_world [example_event Added PodRunning [''a'']]) [Consumer]))
      = the (Log_run example_helpers example_Logger (example_world [example_event Added PodRunning [''a'']]) [Consumer])"
  using non_pod_event_skipped[of example_helpers example_Logger "example_world []" Error
      "the (Log_run example_helpers example_Logger (example_world [example_event Added PodRunning [''a'']]) [Consumer])"]
    non_pod_event_skipped[of example_helpers example_Logger "example_world []" Error
      "the (forward_run (example_world [example_event Added PodRunning [''a'']]) [Consumer])"
      "[example_event Deleted PodRunning [''a'']]"]
  by blast

section \<open>Pods that are not running\<close>

lemma logPod_one_shot:
  "filter is_request (logPod h l namespace name container logs) = [GetLogs namespace name container False]"
  "\<not> list_ex touches_map (logPod h l namespace name container logs)"
  by (auto simp: logPod_def filter_map comp_def list_ex_iff split: sum.splits)

lemma handlePod_containers_one_shot:
  assumes "pod_Phase pod \<noteq> PodRunning"
  shows "\<exists>new. tasks (handlePod_containers h l w pod cs s) = tasks s @ new
     \<and> list_all2 (\<lambda>t c. one_shot pod c t) new
         (if dryRun l then [] else filter (isContainerSelected l) cs)"
proof (induction cs arbitrary: s)
  case Nil
  show ?case by simp
next
  case (Cons c cs)
  show ?case
  proof (cases "isContainerSelected l c \<and> \<not> dryRun l")
    case False
    then show ?thesis using Cons.IH[of s] Cons.IH[of "s\<lparr>trace := trace s @
             [Report Kube (Info ''%s %s'' [F ''[%s/%s]'' [S (pod_Name pod), S c], S ''Found!''])]\<rparr>"]
      by auto
  next
    case True
    let ?t = "\<lparr>task_pod = pod, task_todo = handlePod_task h l pod c
        (GetLogsResult w (length (tasks s))) (CloseResult w (length (tasks s)))\<rparr>"
    let ?s1 = "Go pod (task_todo ?t) s"
    from Cons.IH[of ?s1] obtain new where
      new: "tasks (handlePod_containers h l w pod cs ?s1) = tasks ?s1 @ new"
      and all: "list_all2 (\<lambda>t c. one_shot pod c t) new (filter (isContainerSelected l) cs)"
      using True by auto
    have t: "one_shot pod c ?t"
      using assms by (simp add: one_shot_def handlePod_task_def logPod_one_shot)
    have "tasks (handlePod_containers h l w pod (c # cs) s) = tasks s @ (?t # new)"
      using True new by (simp add: Go_def)
    moreover have "list_all2 (\<lambda>t c. one_shot pod c t) (?t # new)
        (if dryRun l then [] else filter (isContainerSelected l) (c # cs))"
      using True t all by simp
    ultimately show ?thesis by blast
  qed
qed

lemma handlePod_one_shot:
  assumes "pod_Phase pod \<noteq> PodRunning"
  shows "active (handlePod h l w pod s) = active s
    \<and> stopped (handlePod h l w pod s) = stopped s
    \<and> take (length (tasks s)) (tasks (handlePod h l w pod s)) = tasks s
    \<and> list_all2 (\<lambda>t c. one_shot pod c t) (new_tasks s (handlePod h l w pod s))
        (if dryRun l then [] else selected l pod)"
proof -
  from handlePod_containers_one_shot[OF assms, of h l w "pod_InitContainers pod @ pod_Containers pod" s]
  obtain new where "tasks (handlePod h l w pod s) = tasks s @ new"
    and "list_all2 (\<lambda>t c. one_shot pod c t) new (if dryRun l then [] else selected l pod)"
    unfolding handlePod_def selected_def by blast
  then show ?thesis
    by (simp add: new_tasks_def handlePod_def handlePod_containers_frame)
qed







text \<open>
  C3, as stated, fails on the log reconciler, which ignores pending pods only: outside
  a dry run, on an \<open>Added\<close> event for an untracked pod in phase \<open>Unknown\<close> it starts a
  task that reads the logs of the container.
\<close>

theorem log_unknown_phase_starts_session_counterexample:
  "Log_run example_helpers example_Logger (example_world [example_event Added PodUnknown [''a'']]) [Consumer]
     = Some \<lparr>events = [], active = [], stopped = {},
         tasks = [\<lparr>task_pod = example_pod PodUnknown [''a''],
                   task_todo = [GetLogs ''ns'' ''p'' ''a'' False]\<rparr>],
         trace = [], consumer = Watching\<rparr>
   \<and> dryRun example_Logger = False"
  by (simp add: model_defs)

text \<open>
  C3, amended. For an \<open>Added\<close> or \<open>Modified\<close> event that carries a pod in phase
  \<open>Pending\<close> or \<open>Unknown\<close>: the port-forward reconciler ignores it; the log reconciler
  ignores it when the phase is \<open>Pending\<close>, and when the phase is \<open>Unknown\<close> and the pod
  is tracked; when the phase is \<open>Unknown\<close> and the pod is not tracked the log
  reconciler leaves the map and the handles as they are and, in a dry run, starts no
  task, and outside a dry run starts one one-shot task per selected container.
\<close>

theorem pending_or_unknown_event:
  "(ev_Object event = PodObject pod \<and> (ev_Type event = Added \<or> ev_Type event = Modified)
      \<and> (pod_Phase pod = PodPending \<or> pod_Phase pod = PodUnknown) \<longrightarrow>
      forward_event w event s = s)
   \<and> (ev_Object event = PodObject pod \<and> (ev_Type event = Added \<or> ev_Type event = Modified)
      \<and> (pod_Phase pod = PodPending
          \<or> pod_Phase pod = PodUnknown \<and> map_of (active s) (pod_UID pod) \<noteq> None) \<longrightarrow>
      Log_event h l w event s = s)
   \<and> (ev_Object event = PodObject pod \<and> (ev_Type event = Added \<or> ev_Type event = Modified)
      \<and> pod_Phase pod = PodUnknown \<and> map_of (active s) (pod_UID pod) = None \<and> dryRun l \<longrightarrow>
      active (Log_event h l w event s) = active s
      \<and> stopped (Log_event h l w event s) = stopped s
      \<and> tasks (Log_event h l w event s) = tasks s)
   \<and> (ev_Object event = PodObject pod \<and> (ev_Type event = Added \<or> ev_Type event = Modified)
      \<and> pod_Phase pod = PodUnknown \<and> map_of (active s) (pod_UID pod) = None \<and> \<not> dryRun l \<longrightarrow>
      active (Log_event h l w event s) = active s
      \<and> stopped (Log_event h l w event s) = stopped s
      \<and> take (length (tasks s)) (tasks (Log_event h l w event s)) = tasks s
      \<and> list_all2 (\<lambda>t c. one_shot pod c t) (new_tasks s (Log_event h l w event s)) (selected l pod))"
proof (intro conjI impI)
  assume "ev_Object event = PodObject pod \<and> (ev_Type event = Added \<or> ev_Type event = Modified)
      \<and> (pod_Phase pod = PodPending \<or> pod_Phase pod = PodUnknown)"
  then show "forward_event w event s = s"
    by (auto simp: forward_event_def Let_def)
next
  assume "ev_Object event = PodObject pod \<and> (ev_Type event = Added \<or> ev_Type event = Modified)
      \<and> (pod_Phase pod = PodPending
          \<or> pod_Phase pod = PodUnknown \<and> map_of (active s) (pod_UID pod) \<noteq> None)"
  then show "Log_event h l w event s = s"
    by (auto simp: Log_event_def Let_def)
next
  assume a: "ev_Object event = PodObject pod \<and> (ev_Type event = Added \<or> ev_Type event = Modified)
      \<and> pod_Phase pod = PodUnknown \<and> map_of (active s) (pod_UID pod) = None \<and> dryRun l"
  then have eq: "Log_event h l w event s = handlePod h l w pod s"
    by (auto simp: Log_event_def Let_def)
  from a have ph: "pod_Phase pod \<noteq> PodRunning" by auto
  from handlePod_one_shot[OF ph, of h l w s] a
  have tk: "take (length (tasks s)) (tasks (handlePod h l w pod s)) = tasks s"
    and nil: "new_tasks s (handlePod h l w pod s) = []"
    and fr: "active (handlePod h l w pod s) = active s" "stopped (handlePod h l w pod s) = stopped s"
    by simp_all
  from fr show "active (Log_event h l w event s) = active s"
    and "stopped (Log_event h l w event s) = stopped s"
    unfolding eq by simp_all
  have "tasks (handlePod h l w pod s) = take (length (tasks s)) (tasks (handlePod h l w pod s))
      @ new_tasks s (handlePod h l w pod s)"
    unfolding new_tasks_def by simp
  then show "tasks (Log_event h l w event s) = tasks s"
    unfolding eq tk nil by simp
next
  assume a: "ev_Object event = PodObject pod \<and> (ev_Type event = Added \<or> ev_Type event = Modified)
      \<and> pod_Phase pod = PodUnknown \<and> map_of (active s) (pod_UID pod) = None \<and> \<not> dryRun l"
  then have eq: "Log_event h l w event s = handlePod h l w pod s"
    by (auto simp: Log_event_def Let_def)
  from a have ph: "pod_Phase pod \<noteq> PodRunning" by auto
  from handlePod_one_shot[OF ph, of h l w s] a
  show "active (Log_event h l w event s) = active s"
    and "stopped (Log_event h l w event s) = stopped s"
    and "take (length (tasks s)) (tasks (Log_event h l w event s)) = tasks s"
    and "list_all2 (\<lambda>t c. one_shot pod c t) (new_tasks s (Log_event h l w event s)) (selected l pod)"
    unfolding eq by simp_all
qed

theorem pending_or_unknown_event_witness:
  "forward_event (example_world []) (example_event Modified PodUnknown [''a'']) (forward_init (example_world []))
     = forward_init (example_world [])
   \<and> Log_event example_helpers example_Logger (example_world [])
       (example_event Added PodPending [''a'']) (Log_init (example_world []))
     = Log_init (example_world [])
   \<and> tasks (Log_event example_helpers (example_Logger\<lparr>dryRun := True\<rparr>) (example_world [])
       (example_event Added PodUnknown [''a'']) (Log_init (example_world []))) = []
   \<and> list_all2 (\<lambda>t c. one_shot (example_pod PodUnknown [''a'']) c t)
        (new_tasks (Log_init (example_world []))
           (Log_event example_helpers example_Logger (example_world [])
              (example_event Added PodUnknown [''a'']) (Log_init (example_world []))))
        [''a'']"
proof -
  let ?s = "Log_init (example_world [])"
  have ev: "ev_Object (example_event t ph [''a'']) = PodObject (example_pod ph [''a''])"
    "ev_Type (example_event t ph [''a'']) = t" "pod_Phase (example_pod ph [''a'']) = ph" for t ph
    by (simp_all add: example_event_def example_pod_def)
  have untracked: "map_of (active ?s) (pod_UID (example_pod PodUnknown [''a''])) = None"
    by (simp add: model_defs)
  have dry: "dryRun (example_Logger\<lparr>dryRun := True\<rparr>)" "\<not> dryRun example_Logger"
    by (simp_all add: example_Logger_def)
  have sel: "selected example_Logger (example_pod PodUnknown [''a'']) = [''a'']"
    by (simp add: selected_def model_defs)
  have nil: "tasks ?s = []" by (simp add: model_defs)
  from pending_or_unknown_event[where event = "example_event Modified PodUnknown [''a'']"
      and pod = "example_pod PodUnknown [''a'']" and w = "example_world []"
      and s = "forward_init (example_world [])"] ev
  have 1: "forward_event (example_world []) (example_event Modified PodUnknown [''a'']) (forward_init (example_world []))
     = forward_init (example_world [])"
    by blast
  from pending_or_unknown_event[where event = "example_event Added PodPending [''a'']"
      and pod = "example_pod PodPending [''a'']" and w = "example_world []" and s = ?s
      and h = example_helpers and l = example_Logger] ev
  have 2: "Log_event example_helpers example_Logger (example_world [])
       (example_event Added PodPending [''a'']) ?s = ?s"
    by blast
  from pending_or_unknown_event[where event = "example_event Added PodUnknown [''a'']"
      and pod = "example_pod PodUnknown [''a'']" and w = "example_world []" and s = ?s
      and h = example_helpers and l = "example_Logger\<lparr>dryRun := True\<rparr>"] ev untracked dry(1)
  have "tasks (Log_event example_helpers (example_Logger\<lparr>dryRun := True\<rparr>) (example_world [])
       (example_event Added PodUnknown [''a'']) ?s) = tasks ?s"
    by blast
  then have 3: "tasks (Log_event example_helpers (example_Logger\<lparr>dryRun := True\<rparr>) (example_world [])
       (example_event Added PodUnknown [''a'']) ?s) = []"
    unfolding nil .
  from pending_or_unknown_event[where event = "example_event Added PodUnknown [''a'']"
      and pod = "example_pod PodUnknown [''a'']" and w = "example_world []" and s = ?s
      and h = example_helpers and l = example_Logger] ev untracked dry(2)
  have 4: "list_all2 (\<lambda>t c. one_shot (example_pod PodUnknown [''a'']) c t)
        (new_tasks ?s (Log_event example_helpers example_Logger (example_world [])
              (example_event Added PodUnknown [''a'']) ?s))
        (selected example_Logger (example_pod PodUnknown [''a'']))"
    by blast
  from 1 2 3 4 show ?thesis unfolding sel by blast
qed

section \<open>The end of the stream and the returned value\<close>

lemma Wait_returns_no_task_step:
  assumes "Wait_returns s"
  shows "task_step i s = None"
  using assms
  by (auto simp: task_step_def Wait_returns_def list_all_length split: list.splits)

lemma Log_event_consumer: "consumer (Log_event h l w event s) = consumer s"
  by (auto simp: Log_event_def Let_def handlePod_def handlePod_containers_frame
      split: watch_object.splits option.splits)

lemma forward_event_consumer:
  "consumer (forward_event w event s) = consumer s \<or> consumer (forward_event w event s) = Panicked"
  by (auto simp: forward_event_def Let_def handleForwardPod_def Go_def close_chan_def
      split: watch_object.splits option.splits)

lemma Log_consumer_Returned:
  assumes "Log_consumer h l w s = Some s'" and "consumer s' = Returned r"
  shows "Wait_returns s' \<and> r = None \<and> consumer s = Waiting"
  using assms Log_event_consumer[of h l w _ "s\<lparr>events := tl (events s)\<rparr>"]
  by (auto simp: Log_consumer_def Wait_returns_def split: consumer.splits list.splits if_splits)

lemma forward_consumer_Returned:
  assumes "forward_consumer w s = Some s'" and "consumer s' = Returned r"
  shows "Wait_returns s' \<and> r = None \<and> consumer s = Waiting"
proof (cases "consumer s")
  case Watching
  show ?thesis
  proof (cases "events s")
    case Nil
    with assms Watching show ?thesis
      by (auto simp: forward_consumer_def Let_def split: if_splits)
  next
    case (Cons event rest)
    with assms Watching forward_event_consumer[of w event "s\<lparr>events := rest\<rparr>"]
    show ?thesis by (auto simp: forward_consumer_def)
  qed
next
  case Waiting
  with assms show ?thesis
    by (auto simp: forward_consumer_def Wait_returns_def split: if_splits)
next
  case (Returned r')
  with assms show ?thesis by (simp add: forward_consumer_def)
next
  case Panicked
  with assms show ?thesis by (simp add: forward_consumer_def)
qed

lemma initial_returned_inv: "returned_inv wrap w (initial wrap w)"
  by (auto simp: returned_inv_def initial_def watch_result_def Wait_returns_def split: sum.splits)

lemma returned_inv_step:
  assumes inv: "returned_inv wrap w s"
    and task: "\<And>i. c = Task i \<Longrightarrow> step c s = task_step i s"
    and cons: "c = Consumer \<Longrightarrow> consumer s' = Returned r \<Longrightarrow>
       Wait_returns s' \<and> r = None \<and> consumer s = Waiting"
    and step: "step c s = Some s'"
    and none: "c = Consumer \<Longrightarrow> (\<exists>r. consumer s = Returned r) \<Longrightarrow> False"
  shows "(consumer s' = Returned r \<longrightarrow> Wait_returns s' \<and> r = watch_result wrap w)
     \<and> (WatchPods w = Inl err \<longrightarrow> consumer s' = Returned (Some (wrap err)))"
proof (cases "\<exists>r. consumer s = Returned r")
  case True
  then obtain r0 where r0: "consumer s = Returned r0" by blast
  with inv have "Wait_returns s" by (simp add: returned_inv_def)
  then have "task_step i s = None" for i by (rule Wait_returns_no_task_step)
  with task step none True show ?thesis by (cases c) auto
next
  case False
  with inv have ok: "\<And>e. WatchPods w \<noteq> Inl e" by (auto simp: returned_inv_def)
  then have res: "watch_result wrap w = None" by (auto simp: watch_result_def split: sum.splits)
  show ?thesis
  proof (cases c)
    case Consumer
    with cons res ok show ?thesis by auto
  next
    case (Task i)
    with task step have ts: "task_step i s = Some s'" by simp
    then have "consumer s' = consumer s" by (rule task_step_facts)
    with False ok show ?thesis by auto
  qed
qed

lemma Log_run_returned_inv:
  assumes "Log_run h l w cs = Some s"
  shows "returned_inv (\<lambda>err. F ''watch pods: %w'' [S err]) w s"
proof -
  let ?wrap = "\<lambda>err. F ''watch pods: %w'' [S err]"
  have init: "returned_inv ?wrap w (Log_init w)"
    unfolding Log_init_def by (rule initial_returned_inv)
  have step: "returned_inv ?wrap w s'" if "returned_inv ?wrap w s" "Log_step h l w c s = Some s'" for c s s'
    unfolding returned_inv_def
  proof (intro conjI allI)
    fix r err
    have *: "(consumer s' = Returned r \<longrightarrow> Wait_returns s' \<and> r = watch_result ?wrap w)
     \<and> (WatchPods w = Inl err \<longrightarrow> consumer s' = Returned (Some (?wrap err)))"
    proof (rule returned_inv_step[OF that(1), where step = "Log_step h l w" and c = c])
      show "Log_step h l w c s = task_step i s" if "c = Task i" for i
        using that by (simp add: Log_step_def)
      show "Wait_returns s' \<and> r = None \<and> consumer s = Waiting"
        if "c = Consumer" "consumer s' = Returned r"
        using that \<open>Log_step h l w c s = Some s'\<close> Log_consumer_Returned[of h l w s s' r]
        by (simp add: Log_step_def)
      show "Log_step h l w c s = Some s'" by fact
      show False if "c = Consumer" "\<exists>r. consumer s = Returned r"
        using that \<open>Log_step h l w c s = Some s'\<close> by (auto simp: Log_step_def Log_consumer_def)
    qed
    from * show "consumer s' = Returned r \<longrightarrow> Wait_returns s' \<and> r = watch_result ?wrap w" ..
    from * show "WatchPods w = Inl err \<longrightarrow> consumer s' = Returned (Some (?wrap err))" ..
  qed
  from init assms[unfolded Log_run_def] step show ?thesis
    by (rule run_invariant[where P = "returned_inv ?wrap w"])
qed

lemma forward_run_returned_inv:
  assumes "forward_run w cs = Some s"
  shows "returned_inv S w s"
proof -
  have init: "returned_inv S w (forward_init w)"
    unfolding forward_init_def by (rule initial_returned_inv)
  have step: "returned_inv S w s'" if "returned_inv S w s" "forward_step w c s = Some s'" for c s s'
    unfolding returned_inv_def
  proof (intro conjI allI)
    fix r err
    have *: "(consumer s' = Returned r \<longrightarrow> Wait_returns s' \<and> r = watch_result S w)
     \<and> (WatchPods w = Inl err \<longrightarrow> consumer s' = Returned (Some (S err)))"
    proof (rule returned_inv_step[OF that(1), where step = "forward_step w" and c = c])
      show "forward_step w c s = task_step i s" if "c = Task i" for i
        using that by (simp add: forward_step_def)
      show "Wait_returns s' \<and> r = None \<and> consumer s = Waiting"
        if "c = Consumer" "consumer s' = Returned r"
        using that \<open>forward_step w c s = Some s'\<close> forward_consumer_Returned[of w s s' r]
        by (simp add: forward_step_def)
      show "forward_step w c s = Some s'" by fact
      show False if "c = Consumer" "\<exists>r. consumer s = Returned r"
        using that \<open>forward_step w c s = Some s'\<close> by (auto simp: forward_step_def forward_consumer_def)
    qed
    from * show "consumer s' = Returned r \<longrightarrow> Wait_returns s' \<and> r = watch_result S w" ..
    from * show "WatchPods w = Inl err \<longrightarrow> consumer s' = Returned (Some (S err))" ..
  qed
  from init assms[unfolded forward_run_def] step show ?thesis
    by (rule run_invariant[where P = "returned_inv S w"])
qed

lemma Wait_returns_not_live: "Wait_returns s \<Longrightarrow> \<not> live s i"
  by (auto simp: Wait_returns_def live_def list_all_length)

lemma fold_close_chan:
  assumes "consumer s \<noteq> Panicked" and "distinct cs" and "set cs \<inter> stopped s = {}"
  shows "fold close_chan cs s = s\<lparr>stopped := stopped s \<union> set cs\<rparr>"
  using assms
proof (induction cs arbitrary: s)
  case Nil
  then show ?case by simp
next
  case (Cons c cs)
  let ?s1 = "s\<lparr>stopped := insert c (stopped s)\<rparr>"
  from Cons.prems have c: "close_chan c s = ?s1" by (simp add: close_chan_def)
  have "fold close_chan cs ?s1 = ?s1\<lparr>stopped := stopped ?s1 \<union> set cs\<rparr>"
    using Cons.prems by (intro Cons.IH) auto
  then show ?case by (simp add: c)
qed

text \<open>
  C5, as stated, fails on the log reconciler, which cancels nothing when the stream
  ends: after \<open>Added\<close> for a running pod, the store of the task, and the end of the
  stream, the consumer waits, the handle of the task is in the map and is not
  cancelled, the task is live, and the consumer cannot return.
\<close>

theorem log_teardown_cancels_nothing_counterexample:
  "Log_run example_helpers example_Logger (example_world [example_event Added PodRunning [''a'']])
      [Consumer, Task 0, Consumer]
     = Some \<lparr>events = [], active = [(''u'', 0)], stopped = {},
         tasks = [\<lparr>task_pod = example_pod PodRunning [''a''],
                   task_todo = [GetLogs ''ns'' ''p'' ''a'' True, CancelOwn]\<rparr>],
         trace = [MapStore ''u''], consumer = Waiting\<rparr>
   \<and> Log_run example_helpers example_Logger (example_world [example_event Added PodRunning [''a'']])
      [Consumer, Task 0, Consumer, Consumer] = None"
  by (simp add: model_defs)

text \<open>
  C5, amended. When the stream has ended, the log reconciler goes to \<open>Wait\<close> and cancels
  nothing; the port-forward reconciler, when no stop channel of the map is closed yet,
  closes the stop channel of every entry of the map and goes to \<open>Wait\<close>. In \<open>Wait\<close> either
  consumer goes on exactly when every task has returned, and in every state that a run
  of either reconciler reaches, a consumer that has returned leaves no live task.
\<close>

theorem stream_end_teardown:
  "(consumer s = Watching \<and> events s = [] \<longrightarrow>
      Log_consumer h l w s = Some (s\<lparr>consumer := Waiting\<rparr>))
   \<and> (consumer s = Watching \<and> events s = [] \<and> distinct (map snd (active s))
      \<and> set (map snd (active s)) \<inter> stopped s = {} \<longrightarrow>
      forward_consumer w s =
        Some (s\<lparr>stopped := stopped s \<union> set (map snd (active s)), consumer := Waiting\<rparr>))
   \<and> (consumer s = Waiting \<longrightarrow>
      (Log_consumer h l w s \<noteq> None) = Wait_returns s
      \<and> (forward_consumer w s \<noteq> None) = Wait_returns s)
   \<and> (Log_run h l w cs = Some s' \<and> consumer s' = Returned r \<longrightarrow> Wait_returns s' \<and> \<not> live s' i)
   \<and> (forward_run w cs = Some s' \<and> consumer s' = Returned r \<longrightarrow> Wait_returns s' \<and> \<not> live s' i)"
proof (intro conjI impI)
  assume "consumer s = Watching \<and> events s = []"
  then show "Log_consumer h l w s = Some (s\<lparr>consumer := Waiting\<rparr>)"
    by (simp add: Log_consumer_def)
next
  assume a: "consumer s = Watching \<and> events s = [] \<and> distinct (map snd (active s))
      \<and> set (map snd (active s)) \<inter> stopped s = {}"
  then have "close_all s = s\<lparr>stopped := stopped s \<union> set (map snd (active s))\<rparr>"
    unfolding close_all_def by (intro fold_close_chan) auto
  with a show "forward_consumer w s =
        Some (s\<lparr>stopped := stopped s \<union> set (map snd (active s)), consumer := Waiting\<rparr>)"
    by (simp add: forward_consumer_def)
next
  assume "consumer s = Waiting"
  then show "(Log_consumer h l w s \<noteq> None) = Wait_returns s"
    and "(forward_consumer w s \<noteq> None) = Wait_returns s"
    by (simp_all add: Log_consumer_def forward_consumer_def)
next
  assume "Log_run h l w cs = Some s' \<and> consumer s' = Returned r"
  then show "Wait_returns s'"
    using Log_run_returned_inv[of h l w cs s'] by (simp add: returned_inv_def)
  then show "\<not> live s' i" by (rule Wait_returns_not_live)
next
  assume "forward_run w cs = Some s' \<and> consumer s' = Returned r"
  then show "Wait_returns s'"
    using forward_run_returned_inv[of w cs s'] by (simp add: returned_inv_def)
  then show "\<not> live s' i" by (rule Wait_returns_not_live)
qed

theorem stream_end_teardown_witness:
  "forward_consumer (example_world [example_event Added PodRunning [''a'']])
      (the (forward_run (example_world [example_event Added PodRunning [''a'']]) [Consumer]))
     = Some ((the (forward_run (example_world [example_event Added PodRunning [''a'']]) [Consumer]))
         \<lparr>stopped := {0}, consumer := Waiting\<rparr>)
   \<and> \<not> live (the (forward_run (example_world [example_event Added PodRunning [''a'']])
        [Consumer, Consumer, Task 0, Task 0, Task 0, Task 0, Task 0, Task 0, Consumer])) 0
   \<and> consumer (the (forward_run (example_world [example_event Added PodRunning [''a'']])
        [Consumer, Consumer, Task 0, Task 0, Task 0, Task 0, Task 0, Task 0, Consumer])) = Returned None
   \<and> \<not> live (the (Log_run example_helpers example_Logger (example_world [example_event Added PodRunning [''a'']])
        [Consumer, Task 0, Consumer, Task 0, Task 0, Consumer])) 0"
proof -
  let ?w = "example_world [example_event Added PodRunning [''a'']]"
  let ?s = "the (forward_run ?w [Consumer])"
  let ?cs = "[Consumer, Consumer, Task 0, Task 0, Task 0, Task 0, Task 0, Task 0, Consumer]"
  let ?s' = "the (forward_run ?w ?cs)"
  let ?cl = "[Consumer, Task 0, Consumer, Task 0, Task 0, Consumer]"
  let ?sl = "the (Log_run example_helpers example_Logger ?w ?cl)"
  have hyp: "consumer ?s = Watching" "events ?s = []" "distinct (map snd (active ?s))"
    "set (map snd (active ?s)) \<inter> stopped ?s = {}"
    by (simp_all add: model_defs)
  have val: "stopped ?s \<union> set (map snd (active ?s)) = {0}" by (simp add: model_defs)
  have run: "forward_run ?w ?cs = Some ?s'" "consumer ?s' = Returned None"
    by (simp_all add: model_defs)
  have runl: "Log_run example_helpers example_Logger ?w ?cl = Some ?sl" "consumer ?sl = Returned None"
    by (simp_all add: model_defs)
  from stream_end_teardown[where s = ?s and w = ?w] hyp
  have "forward_consumer ?w ?s =
      Some (?s\<lparr>stopped := stopped ?s \<union> set (map snd (active ?s)), consumer := Waiting\<rparr>)"
    by blast
  then have 1: "forward_consumer ?w ?s = Some (?s\<lparr>stopped := {0}, consumer := Waiting\<rparr>)"
    unfolding val .
  from stream_end_teardown[where w = ?w and cs = ?cs and s' = ?s' and r = None and i = 0] run
  have 2: "\<not> live ?s' 0" by blast
  from stream_end_teardown[where w = ?w and cs = ?cl and s' = ?sl and r = None and i = 0
      and h = example_helpers and l = example_Logger] runl
  have 3: "\<not> live ?sl 0" by blast
  from 1 2 3 run(2) show ?thesis by blast
qed

section \<open>What the reconciler returns\<close>

subsection \<open>Every run comes to an end\<close>























subsection \<open>The returned value and the reports\<close>





end
